theory Spec2Isabelle
  imports Main
begin

section \<open>Data model\<close>

text \<open>
  A key is the hash of a block (\<open>key.Key\<close>, a Go string type). A cid is the richer
  root reference of \<open>go-cid\<close>; the collector only ever reduces it to its key with
  \<open>c.Hash()\<close>, so the model keeps just that component.
\<close>

type_synonym key = string

datatype cid = Cid (Hash: key)

datatype error = ErrNotFound | ErrDecode | ErrEnumerate | ErrDelete

text \<open>A node is a fetched block decoded far enough to list the blocks it links to.\<close>

datatype node = Node (Links: "cid list")

text \<open>A stored block either decodes to a node or is not a well-formed node.\<close>

datatype block = ProtoBlock node | CorruptBlock

text \<open>
  Modelled from the spec: the block store (\<open>bstore.GCBlockstore\<close>) is not part of the
  sources. It is the key-value population of blocks, the exclusive GC lock, and the
  failures the contract of section 6 allows: enumeration may fail to start, and deleting
  a block may fail on I/O.
\<close>

record blockstore =
  blocks :: "(key \<times> block) list"
  gclocked :: bool
  enum_fault :: "error option"
  delete_fault :: "key \<Rightarrow> error option"

definition stored :: "blockstore \<Rightarrow> key set" where
  "stored bs = fst ` set (blocks bs)"

text \<open>
  Modelled from the spec: \<open>GCLock\<close> takes the exclusive lock and blocks while it is held;
  a call that never comes back is \<open>None\<close>. \<open>Unlock\<close> is the returned handle's release.
\<close>

definition GCLock :: "blockstore \<Rightarrow> blockstore option" where
  "GCLock bs = (if gclocked bs then None else Some (bs\<lparr>gclocked := True\<rparr>))"

definition Unlock :: "blockstore \<Rightarrow> blockstore" where
  "Unlock bs = bs\<lparr>gclocked := False\<rparr>"

text \<open>
  Modelled from the spec: \<open>AllKeysChan\<close> enumerates every stored key, in the store's own
  order, or fails with an enumeration error.
\<close>

definition AllKeysChan :: "blockstore \<Rightarrow> error + key list" where
  "AllKeysChan bs =
     (case enum_fault bs of
        Some err \<Rightarrow> Inl err
      | None \<Rightarrow> Inr (map fst (blocks bs)))"

text \<open>
  Modelled from the spec: \<open>DeleteBlock\<close> fails if the block is absent or on an I/O
  failure, and otherwise removes the block.
\<close>

definition DeleteBlock :: "blockstore \<Rightarrow> key \<Rightarrow> error option \<times> blockstore" where
  "DeleteBlock bs k =
     (if k \<notin> stored bs then (Some ErrNotFound, bs)
      else case delete_fault bs k of
        Some err \<Rightarrow> (Some err, bs)
      | None \<Rightarrow> (None, bs\<lparr>blocks := filter (\<lambda>kb. fst kb \<noteq> k) (blocks bs)\<rparr>))"

text \<open>
  Modelled from the spec: the DAG service built by \<open>GC\<close> reads local storage only
  (offline exchange). \<open>Get\<close> fetches the node of a cid: not found when the block is not
  stored, a decode error when it is stored but is no node.
\<close>

type_synonym DAGService = blockstore

definition Get :: "DAGService \<Rightarrow> cid \<Rightarrow> error + node" where
  "Get ds c =
     (case map_of (blocks ds) (Hash c) of
        None \<Rightarrow> Inl ErrNotFound
      | Some (ProtoBlock nd) \<Rightarrow> Inr nd
      | Some CorruptBlock \<Rightarrow> Inl ErrDecode)"

text \<open>The pin registry as \<open>GC\<close> consumes it: three lists of cids.\<close>

record pinner =
  RecursiveKeys :: "cid list"
  DirectKeys :: "cid list"
  InternalPins :: "cid list"

section \<open>Closure walker\<close>

text \<open>
  The visitor that \<open>Descendants\<close> hands to \<open>EnumerateChildren\<close> (gc.go, lines 83 to 91):
  it answers whether to descend, and adds an unseen key to the set.
\<close>

definition visit :: "cid \<Rightarrow> key set \<Rightarrow> bool \<times> key set" where
  "visit c s =
     (let k = Hash c; seen = (k \<in> s)
      in if seen then (False, s) else (True, insert k s))"

text \<open>
  Modelled from the spec: \<open>dag.EnumerateChildren\<close> is not part of the sources. It walks
  the links of a node depth first; for each child it asks the visitor whether to descend,
  and if so fetches the child and recurses into it. With \<open>bestEffort\<close> a child that cannot
  be fetched is skipped and the walk goes on with its siblings; without it the error
  aborts the walk. The visitor is the one of \<open>Descendants\<close>, its only caller here; the
  set it updates is threaded through and returned, also on failure.
\<close>

function enumerate_links ::
  "DAGService \<Rightarrow> cid list \<Rightarrow> bool \<Rightarrow> key set \<Rightarrow> error option \<times> key set" where
  "enumerate_links ds [] bestEffort s = (None, s)"
| "enumerate_links ds (c # cs) bestEffort s =
     (case visit c s of
        (False, s1) \<Rightarrow> enumerate_links ds cs bestEffort s1
      | (True, s1) \<Rightarrow>
         (case Get ds c of
            Inl err \<Rightarrow>
              if bestEffort then enumerate_links ds cs bestEffort s1
              else (Some err, s1)
          | Inr child \<Rightarrow>
             (case enumerate_links ds (Links child) bestEffort s1 of
                (Some err, s2) \<Rightarrow> (Some err, s2)
              | (None, s2) \<Rightarrow> enumerate_links ds cs bestEffort s2)))"
  by pat_completeness auto

lemma visit_mono: "visit c s = (b, s1) \<Longrightarrow> s \<subseteq> s1"
  by (auto simp: visit_def Let_def split: if_splits)

lemma visit_True: "visit c s = (True, s1) \<Longrightarrow> Hash c \<notin> s \<and> s1 = insert (Hash c) s"
  by (auto simp: visit_def Let_def split: if_splits)

lemma visit_False: "visit c s = (False, s1) \<Longrightarrow> Hash c \<in> s \<and> s1 = s"
  by (auto simp: visit_def Let_def split: if_splits)

lemma Get_stored: "Get ds c = Inr nd \<Longrightarrow> Hash c \<in> stored ds"
  by (auto simp: Get_def stored_def split: option.splits block.splits dest: map_of_SomeD
      intro: rev_image_eqI)

lemma enumerate_links_dom_mono:
  "enumerate_links_dom (ds, cs, b, s) \<Longrightarrow> s \<subseteq> snd (enumerate_links ds cs b s)"
proof (induction ds cs b s rule: enumerate_links.pinduct)
  case (1 ds bestEffort s)
  then show ?case by (simp add: enumerate_links.psimps)
next
  case (2 ds c cs bestEffort s)
  note dom = "2.hyps"
  obtain d s1 where v: "visit c s = (d, s1)" by (cases "visit c s")
  have s1: "s \<subseteq> s1" using v by (rule visit_mono)
  show ?case
  proof (cases d)
    case False
    have "s1 \<subseteq> snd (enumerate_links ds cs bestEffort s1)"
      using "2.IH"(4)[of d s1] v False by simp
    with dom v False s1 show ?thesis
      by (auto simp: enumerate_links.psimps)
  next
    case True
    show ?thesis
    proof (cases "Get ds c")
      case (Inl err)
      show ?thesis
      proof (cases bestEffort)
        case be: True
        have "s1 \<subseteq> snd (enumerate_links ds cs bestEffort s1)"
          using "2.IH"(1)[of d s1 err] v True Inl be by simp
        with dom v True Inl be s1 show ?thesis
          by (auto simp: enumerate_links.psimps)
      next
        case be: False
        with dom v True Inl s1 show ?thesis
          by (simp add: enumerate_links.psimps)
      qed
    next
      case (Inr child)
      obtain e s2 where r: "enumerate_links ds (Links child) bestEffort s1 = (e, s2)"
        by (cases "enumerate_links ds (Links child) bestEffort s1")
      have "s1 \<subseteq> snd (enumerate_links ds (Links child) bestEffort s1)"
        using "2.IH"(2)[of d s1 child] v True Inr by simp
      then have s2: "s1 \<subseteq> s2" using r by simp
      show ?thesis
      proof (cases e)
        case None
        have "s2 \<subseteq> snd (enumerate_links ds cs bestEffort s2)"
          using "2.IH"(3)[of d s1 child e s2] v True Inr r None by simp
        with dom v True Inr r None s1 s2 show ?thesis
          by (auto simp: enumerate_links.psimps)
      next
        case (Some err)
        with dom v True Inr r s1 s2 show ?thesis
          by (auto simp: enumerate_links.psimps)
      qed
    qed
  qed
qed


lemma finite_stored: "finite (stored ds)"
  by (simp add: stored_def)

lemma card_unmarked_le: "s \<subseteq> s' \<Longrightarrow> card (stored ds - s') \<le> card (stored ds - s)"
  by (rule card_mono) (auto simp: finite_stored)

lemma card_unmarked_less:
  "k \<in> stored ds \<Longrightarrow> k \<notin> s \<Longrightarrow> card (stored ds - insert k s) < card (stored ds - s)"
  by (rule psubset_card_mono) (auto simp: finite_stored)

definition walk_order :: "((DAGService \<times> cid list \<times> bool \<times> key set) \<times> (DAGService \<times> cid list \<times> bool \<times> key set)) set" where
  "walk_order = measures [\<lambda>(ds, cs, b, s). card (stored ds - s), \<lambda>(ds, cs, b, s). length cs]"

lemma walk_order_sibling:
  "s \<subseteq> s' \<Longrightarrow> ((ds, cs, b, s'), (ds, c # cs, b, s)) \<in> walk_order"
  using card_unmarked_le[of s s' ds] by (auto simp: walk_order_def)

lemma walk_order_child:
  "k \<in> stored ds \<Longrightarrow> k \<notin> s \<Longrightarrow> ((ds, ls, b, insert k s), (ds, cs, b, s)) \<in> walk_order"
  using card_unmarked_less[of k ds s] by (auto simp: walk_order_def)

termination enumerate_links
proof (relation walk_order)
  show "wf walk_order"
    by (simp add: walk_order_def)
next
  fix ds c cs bestEffort s x y
  assume "(x, y) = visit c s" "x = False"
  then have "s \<subseteq> y" using visit_mono[of c s x y] by simp
  then show "((ds, cs, bestEffort, y), ds, c # cs, bestEffort, s) \<in> walk_order"
    by (rule walk_order_sibling)
next
  fix ds c cs s x y a and bestEffort :: bool
  assume "(x, y) = visit c s" "x = True" "Get ds c = Inl a" "bestEffort"
  then have "s \<subseteq> y" using visit_mono[of c s x y] by simp
  then show "((ds, cs, bestEffort, y), ds, c # cs, bestEffort, s) \<in> walk_order"
    by (rule walk_order_sibling)
next
  fix ds c cs bestEffort s x y b
  assume "(x, y) = visit c s" "x = True" "Get ds c = Inr b"
  then have "Hash c \<in> stored ds" "Hash c \<notin> s" "y = insert (Hash c) s"
    using visit_True[of c s y] Get_stored[of ds c b] by simp_all
  then show "((ds, Links b, bestEffort, y), ds, c # cs, bestEffort, s) \<in> walk_order"
    by (simp add: walk_order_child)
next
  fix ds c cs bestEffort s x y b xa ya
  assume v: "(x, y) = visit c s" "x = True" "Get ds c = Inr b"
    and r: "(xa, ya) = enumerate_links ds (Links b) bestEffort y" "xa = None"
    and d: "enumerate_links_dom (ds, Links b, bestEffort, y)"
  have "s \<subseteq> y" using v visit_mono[of c s x y] by simp
  moreover have "y \<subseteq> ya" using enumerate_links_dom_mono[OF d] r(1)[symmetric] by simp
  ultimately have "s \<subseteq> ya" by simp
  then show "((ds, cs, bestEffort, ya), ds, c # cs, bestEffort, s) \<in> walk_order"
    by (rule walk_order_sibling)
qed


definition EnumerateChildren ::
  "DAGService \<Rightarrow> node \<Rightarrow> bool \<Rightarrow> key set \<Rightarrow> error option \<times> key set" where
  "EnumerateChildren ds root bestEffort s = enumerate_links ds (Links root) bestEffort s"

text \<open>
  \<open>Descendants\<close> (gc.go, lines 74 to 98). The key set is a mutable object in the source;
  here it is passed in and returned, together with the error (\<open>None\<close> for \<open>nil\<close>).
\<close>

fun Descendants ::
  "DAGService \<Rightarrow> key set \<Rightarrow> cid list \<Rightarrow> bool \<Rightarrow> error option \<times> key set" where
  "Descendants ds s [] bestEffort = (None, s)"
| "Descendants ds s (c # roots) bestEffort =
     (let s0 = insert (Hash c) s
      in case Get ds c of
           Inl err \<Rightarrow> (Some err, s0)
         | Inr nd \<Rightarrow>
            (case EnumerateChildren ds nd bestEffort s0 of
               (Some err, s1) \<Rightarrow> (Some err, s1)
             | (None, s1) \<Rightarrow> Descendants ds s1 roots bestEffort))"

section \<open>Live-set builder\<close>

text \<open>The loop over the direct pins (gc.go, lines 114 to 116).\<close>

definition add_direct :: "cid list \<Rightarrow> key set \<Rightarrow> key set" where
  "add_direct ks s = fold (\<lambda>k gcs. insert (Hash k) gcs) ks s"

text \<open>\<open>ColoredSet\<close> (gc.go, lines 100 to 124): on an error the set is dropped.\<close>

definition ColoredSet :: "pinner \<Rightarrow> DAGService \<Rightarrow> cid list \<Rightarrow> error + key set" where
  "ColoredSet pn ds bestEffortRoots =
     (let gcs = {}
      in case Descendants ds gcs (RecursiveKeys pn) False of
           (Some err, _) \<Rightarrow> Inl err
         | (None, gcs1) \<Rightarrow>
            (case Descendants ds gcs1 bestEffortRoots True of
               (Some err, _) \<Rightarrow> Inl err
             | (None, gcs2) \<Rightarrow>
                (let gcs3 = add_direct (DirectKeys pn) gcs2
                 in case Descendants ds gcs3 (InternalPins pn) False of
                      (Some err, _) \<Rightarrow> Inl err
                    | (None, gcs4) \<Rightarrow> Inr gcs4)))"

section \<open>Collector\<close>

text \<open>
  The sweep runs in a goroutine that selects between the key channel, the output channel
  and \<open>ctx.Done()\<close>. Which ready case a \<open>select\<close> takes is the environment's choice: the
  context is modelled as the list of these choices, one entry per \<open>select\<close> reached, where
  \<open>True\<close> means the \<open>ctx.Done()\<close> case is taken. A context that runs out of entries is
  never cancelled.
\<close>

type_synonym Context = "bool list"

definition ctx_done :: "Context \<Rightarrow> bool" where
  "ctx_done ctx = (case ctx of [] \<Rightarrow> False | d # _ \<Rightarrow> d)"

text \<open>The four \<open>return\<close> statements of the goroutine (lines 51, 57, 62 and 66).\<close>

datatype exit = KeysExhausted | DeleteFailed | DoneAtSend | DoneAtReceive

text \<open>The effects of the goroutine in program order.\<close>

datatype event = Deleted key | Sent key

text \<open>
  What the goroutine works on: the store, the live set it captured, the keys still to
  come on \<open>keychan\<close>, the keys the consumer received on \<open>output\<close>, whether \<open>output\<close> is
  closed, the debug log, and the history of deletions and sends.
\<close>

record sweep_state =
  store :: blockstore
  gcs :: "key set"
  keychan :: "key list"
  output_chan :: "key list"
  closed :: bool
  debug_log :: "error list"
  history :: "event list"

text \<open>The \<open>for\<close>/\<open>select\<close> loop of the goroutine (gc.go, lines 47 to 68).\<close>

function sweep :: "Context \<Rightarrow> sweep_state \<Rightarrow> exit \<times> sweep_state" where
  "sweep ctx st =
     (if ctx_done ctx then (DoneAtReceive, st)
      else case keychan st of
        [] \<Rightarrow> (KeysExhausted, st)
      | k # ks \<Rightarrow>
         (let st1 = st\<lparr>keychan := ks\<rparr>; ctx1 = tl ctx
          in if k \<notin> gcs st1 then
               (case DeleteBlock (store st1) k of
                  (Some err, bs') \<Rightarrow>
                    (DeleteFailed, st1\<lparr>store := bs', debug_log := debug_log st1 @ [err]\<rparr>)
                | (None, bs') \<Rightarrow>
                    (let st2 = st1\<lparr>store := bs', history := history st1 @ [Deleted k]\<rparr>
                     in if ctx_done ctx1 then (DoneAtSend, st2)
                        else sweep (tl ctx1)
                               (st2\<lparr>output_chan := output_chan st2 @ [k],
                                    history := history st2 @ [Sent k]\<rparr>)))
             else sweep ctx1 st1))"
  by pat_completeness auto
termination
  by (relation "measure (\<lambda>(ctx, st). length (keychan st))") auto

declare sweep.simps [simp del]

text \<open>
  \<open>GC\<close> (gc.go, lines 27 to 72), run to the end of the pass. \<open>None\<close>: the call never gets
  the lock. \<open>Inl\<close>: the error return \<open>(nil, err)\<close>, with the store as it is left. \<open>Inr\<close>:
  the goroutine was started; its exit and final state, after the two deferred calls
  (\<open>Unlock\<close> first, then \<open>close(output)\<close>).
\<close>

definition GC ::
  "Context \<Rightarrow> blockstore \<Rightarrow> pinner \<Rightarrow> cid list \<Rightarrow> (error \<times> blockstore + exit \<times> sweep_state) option" where
  "GC ctx bs pn bestEffortRoots =
     (case GCLock bs of
        None \<Rightarrow> None
      | Some bs1 \<Rightarrow>
         Some (case ColoredSet pn bs1 bestEffortRoots of
                 Inl err \<Rightarrow> Inl (err, bs1)
               | Inr live \<Rightarrow>
                  (case AllKeysChan bs1 of
                     Inl err \<Rightarrow> Inl (err, bs1)
                   | Inr keys \<Rightarrow>
                      (let (ex, st) = sweep ctx
                             \<lparr>store = bs1, gcs = live, keychan = keys, output_chan = [],
                              closed = False, debug_log = [], history = []\<rparr>;
                           st1 = st\<lparr>store := Unlock (store st)\<rparr>;
                           st2 = st1\<lparr>closed := True\<rparr>
                       in Inr (ex, st2)))))"

section \<open>Properties of the closure walker\<close>

lemma enumerate_links_seen:
  "Hash c \<in> s \<Longrightarrow> enumerate_links ds (c # cs) b s = enumerate_links ds cs b s"
  by (simp add: visit_def)

lemma enumerate_links_skip:
  "Hash c \<notin> s \<Longrightarrow> Get ds c = Inl err \<Longrightarrow>
   enumerate_links ds (c # cs) True s = enumerate_links ds cs True (insert (Hash c) s)"
  by (simp add: visit_def)

lemma enumerate_links_fail:
  "Hash c \<notin> s \<Longrightarrow> Get ds c = Inl err \<Longrightarrow>
   enumerate_links ds (c # cs) False s = (Some err, insert (Hash c) s)"
  by (simp add: visit_def)

lemma enumerate_links_descend:
  "Hash c \<notin> s \<Longrightarrow> Get ds c = Inr nd \<Longrightarrow>
   enumerate_links ds (c # cs) b s =
     (case enumerate_links ds (Links nd) b (insert (Hash c) s) of
        (Some err, s2) \<Rightarrow> (Some err, s2)
      | (None, s2) \<Rightarrow> enumerate_links ds cs b s2)"
  by (simp add: visit_def)

declare enumerate_links.simps(2) [simp del]

lemma enumerate_links_cases [case_names Nil Seen Skip Fail Descend]:
  assumes "\<And>ds b s. P ds [] b s"
    and "\<And>ds c cs b s. Hash c \<in> s \<Longrightarrow> P ds cs b s \<Longrightarrow> P ds (c # cs) b s"
    and "\<And>ds c cs s err. Hash c \<notin> s \<Longrightarrow> Get ds c = Inl err \<Longrightarrow>
           P ds cs True (insert (Hash c) s) \<Longrightarrow> P ds (c # cs) True s"
    and "\<And>ds c cs s err. Hash c \<notin> s \<Longrightarrow> Get ds c = Inl err \<Longrightarrow> P ds (c # cs) False s"
    and "\<And>ds c cs b s nd. Hash c \<notin> s \<Longrightarrow> Get ds c = Inr nd \<Longrightarrow>
           P ds (Links nd) b (insert (Hash c) s) \<Longrightarrow>
           (\<And>s2. enumerate_links ds (Links nd) b (insert (Hash c) s) = (None, s2) \<Longrightarrow> P ds cs b s2) \<Longrightarrow>
           P ds (c # cs) b s"
  shows "P ds cs b s"
proof (induction ds cs b s rule: enumerate_links.induct)
  case (1 ds bestEffort s)
  show ?case by (rule assms(1))
next
  case (2 ds c cs bestEffort s)
  show ?case
  proof (cases "Hash c \<in> s")
    case True
    then have "visit c s = (False, s)" by (simp add: visit_def)
    then have "P ds cs bestEffort s" using "2.IH"(4)[of False s] by simp
    with True show ?thesis by (rule assms(2))
  next
    case False
    then have v: "visit c s = (True, insert (Hash c) s)" by (simp add: visit_def)
    show ?thesis
    proof (cases "Get ds c")
      case (Inl err)
      show ?thesis
      proof (cases bestEffort)
        case True
        have "P ds cs bestEffort (insert (Hash c) s)"
          using "2.IH"(1)[of True "insert (Hash c) s" err] v Inl True by simp
        with False Inl True show ?thesis using assms(3)[of c s ds err cs] by simp
      next
        case be: False
        with False Inl show ?thesis using assms(4)[of c s ds err cs] by simp
      qed
    next
      case (Inr nd)
      have inner: "P ds (Links nd) bestEffort (insert (Hash c) s)"
        using "2.IH"(2)[of True "insert (Hash c) s" nd] v Inr by simp
      have outer: "P ds cs bestEffort s2"
        if "enumerate_links ds (Links nd) bestEffort (insert (Hash c) s) = (None, s2)" for s2
        using "2.IH"(3)[of True "insert (Hash c) s" nd None s2] v Inr that by simp
      show ?thesis using False Inr inner outer by (rule assms(5))
    qed
  qed
qed

lemma enumerate_links_mono: "s \<subseteq> snd (enumerate_links ds cs b s)"
proof (induction ds cs b s rule: enumerate_links_cases)
  case (Nil ds b s)
  show ?case by simp
next
  case (Seen ds c cs b s)
  then show ?case by (simp add: enumerate_links_seen)
next
  case (Skip ds c cs s err)
  then show ?case by (auto simp: enumerate_links_skip)
next
  case (Fail ds c cs s err)
  then show ?case by (auto simp: enumerate_links_fail)
next
  case (Descend ds c cs b s nd)
  obtain e s2 where r: "enumerate_links ds (Links nd) b (insert (Hash c) s) = (e, s2)"
    by (cases "enumerate_links ds (Links nd) b (insert (Hash c) s)")
  have s2: "insert (Hash c) s \<subseteq> s2" using Descend.IH(1) r by simp
  show ?case
  proof (cases e)
    case None
    then have "s2 \<subseteq> snd (enumerate_links ds cs b s2)" using Descend.IH(2) r by simp
    with Descend.hyps r None s2 show ?thesis by (auto simp: enumerate_links_descend)
  next
    case (Some err)
    with Descend.hyps r s2 show ?thesis by (auto simp: enumerate_links_descend)
  qed
qed

lemma Descendants_mono: "s \<subseteq> snd (Descendants ds s roots b)"
proof (induction roots arbitrary: s)
  case Nil
  show ?case by simp
next
  case (Cons c roots)
  show ?case
  proof (cases "Get ds c")
    case (Inl err)
    then show ?thesis by auto
  next
    case (Inr nd)
    obtain e s1 where r: "EnumerateChildren ds nd b (insert (Hash c) s) = (e, s1)"
      by (cases "EnumerateChildren ds nd b (insert (Hash c) s)")
    have s1: "insert (Hash c) s \<subseteq> s1"
      using enumerate_links_mono[of "insert (Hash c) s" ds "Links nd" b] r
      by (simp add: EnumerateChildren_def)
    show ?thesis
    proof (cases e)
      case None
      have "s1 \<subseteq> snd (Descendants ds s1 roots b)" by (rule Cons.IH)
      with Inr r None s1 show ?thesis by auto
    next
      case (Some err)
      with Inr r s1 show ?thesis by auto
    qed
  qed
qed

lemma add_direct_eq: "add_direct ks s = s \<union> Hash ` set ks"
  unfolding add_direct_def by (induction ks arbitrary: s) auto

section \<open>Concrete evaluations and the error returns of the collector\<close>

text \<open>Example stores used by the concrete evaluations below.\<close>

definition store_AB :: blockstore where
  "store_AB =
     \<lparr>blocks = [(''A'', ProtoBlock (Node [Cid ''B''])), (''B'', ProtoBlock (Node [Cid ''A''])),
                (''C'', ProtoBlock (Node [])), (''D'', CorruptBlock)],
      gclocked = False, enum_fault = None, delete_fault = (\<lambda>k. None)\<rparr>"

definition pins_A :: pinner where
  "pins_A = \<lparr>RecursiveKeys = [Cid ''A''], DirectKeys = [], InternalPins = []\<rparr>"

definition pins_Z :: pinner where
  "pins_Z = \<lparr>RecursiveKeys = [Cid ''Z''], DirectKeys = [], InternalPins = []\<rparr>"

lemmas eval_defs =
  store_AB_def pins_A_def pins_Z_def GC_def GCLock_def Unlock_def AllKeysChan_def DeleteBlock_def
  ColoredSet_def add_direct_def Get_def EnumerateChildren_def visit_def stored_def ctx_done_def
  enumerate_links.simps sweep.simps Let_def

text \<open>
  Claim C1 (lock released exactly once on every exit path). The goroutine releases the
  lock by its deferred \<open>Unlock\<close>, but the two error returns of \<open>GC\<close> (lines 35 and 40)
  come before the goroutine is started and release nothing. Evaluated here: a pass whose
  recursive root \<open>Z\<close> is not stored returns the error with the lock still held, the next
  pass on that store never gets the lock, and a pass whose key enumeration fails to start
  leaves the lock held as well.
\<close>

theorem GC_error_return_keeps_lock:
  "GC [] store_AB pins_Z [] = Some (Inl (ErrNotFound, store_AB\<lparr>gclocked := True\<rparr>))
   \<and> GC [] (store_AB\<lparr>gclocked := True\<rparr>) pins_A [] = None
   \<and> GC [] (store_AB\<lparr>enum_fault := Some ErrEnumerate\<rparr>) pins_A []
       = Some (Inl (ErrEnumerate, store_AB\<lparr>enum_fault := Some ErrEnumerate, gclocked := True\<rparr>))"
  by (simp add: eval_defs)

text \<open>
  Claim C2 (best-effort tolerance for an unfetchable root). \<open>Descendants\<close> returns the
  error of the root's fetch whatever \<open>bestEffort\<close> is (lines 77 to 80): only the walk below
  the root is tolerant. Evaluated here: with best-effort roots \<open>Z\<close> (not stored) and \<open>A\<close>,
  \<open>Descendants\<close> fails at \<open>Z\<close> and never reaches \<open>A\<close>, and the whole pass fails.
\<close>

theorem Descendants_bestEffort_root_unfetchable:
  "Descendants store_AB {} [Cid ''Z'', Cid ''A''] True = (Some ErrNotFound, {''Z''})
   \<and> GC [] store_AB pins_A [Cid ''Z''] = Some (Inl (ErrNotFound, store_AB\<lparr>gclocked := True\<rparr>))"
  by (simp add: eval_defs)

text \<open>
  Claim C5 (mark failure fails the pass before any deletion). When the mark phase fails,
  \<open>GC\<close> returns that error and no output sequence, and the store holds the blocks it
  held before the call.
\<close>

theorem GC_mark_failure:
  assumes "GCLock bs = Some bs1" and "ColoredSet pn bs1 roots = Inl err"
  shows "GC ctx bs pn roots = Some (Inl (err, bs1)) \<and> blocks bs1 = blocks bs"
  using assms by (auto simp: GC_def GCLock_def split: if_splits)

theorem GC_mark_failure_witness:
  "GCLock store_AB = Some (store_AB\<lparr>gclocked := True\<rparr>)
   \<and> ColoredSet pins_Z (store_AB\<lparr>gclocked := True\<rparr>) [] = Inl ErrNotFound
   \<and> GC [] store_AB pins_Z [] = Some (Inl (ErrNotFound, store_AB\<lparr>gclocked := True\<rparr>))
   \<and> blocks (store_AB\<lparr>gclocked := True\<rparr>) = blocks store_AB"
proof -
  have l: "GCLock store_AB = Some (store_AB\<lparr>gclocked := True\<rparr>)"
    by (simp add: GCLock_def store_AB_def)
  have c: "ColoredSet pins_Z (store_AB\<lparr>gclocked := True\<rparr>) [] = Inl ErrNotFound"
    by (simp add: eval_defs)
  show ?thesis using GC_mark_failure[OF l c, of "[]"] l c by simp
qed

section \<open>Properties of the sweep\<close>

lemma sweep_done:
  "ctx_done ctx \<Longrightarrow> sweep ctx st = (DoneAtReceive, st)"
  by (simp add: sweep.simps)

lemma sweep_exhausted:
  "\<not> ctx_done ctx \<Longrightarrow> keychan st = [] \<Longrightarrow> sweep ctx st = (KeysExhausted, st)"
  by (simp add: sweep.simps)

lemma sweep_live:
  "\<not> ctx_done ctx \<Longrightarrow> keychan st = k # ks \<Longrightarrow> k \<in> gcs st \<Longrightarrow>
   sweep ctx st = sweep (tl ctx) (st\<lparr>keychan := ks\<rparr>)"
  by (subst sweep.simps) simp

lemma sweep_delete_failed:
  "\<not> ctx_done ctx \<Longrightarrow> keychan st = k # ks \<Longrightarrow> k \<notin> gcs st \<Longrightarrow>
   DeleteBlock (store st) k = (Some err, bs') \<Longrightarrow>
   sweep ctx st =
     (DeleteFailed, st\<lparr>keychan := ks, store := bs', debug_log := debug_log st @ [err]\<rparr>)"
  by (subst sweep.simps) simp

lemma sweep_done_at_send:
  "\<not> ctx_done ctx \<Longrightarrow> keychan st = k # ks \<Longrightarrow> k \<notin> gcs st \<Longrightarrow>
   DeleteBlock (store st) k = (None, bs') \<Longrightarrow> ctx_done (tl ctx) \<Longrightarrow>
   sweep ctx st =
     (DoneAtSend, st\<lparr>keychan := ks, store := bs', history := history st @ [Deleted k]\<rparr>)"
  by (subst sweep.simps) simp

lemma sweep_sent:
  "\<not> ctx_done ctx \<Longrightarrow> keychan st = k # ks \<Longrightarrow> k \<notin> gcs st \<Longrightarrow>
   DeleteBlock (store st) k = (None, bs') \<Longrightarrow> \<not> ctx_done (tl ctx) \<Longrightarrow>
   sweep ctx st =
     sweep (tl (tl ctx))
       (st\<lparr>keychan := ks, store := bs', output_chan := output_chan st @ [k],
           history := history st @ [Deleted k, Sent k]\<rparr>)"
  by (subst sweep.simps) simp

lemma DeleteBlock_ok:
  "DeleteBlock bs k = (None, bs') \<Longrightarrow>
   k \<in> stored bs \<and> bs' = bs\<lparr>blocks := filter (\<lambda>kb. fst kb \<noteq> k) (blocks bs)\<rparr>"
  by (auto simp: DeleteBlock_def split: if_splits option.splits)


text \<open>
  The state after the keys \<open>pre\<close>, the next ones on the key channel, have been handled in
  full: every one of them outside the live set deleted and then sent.
\<close>

definition garbage :: "key set \<Rightarrow> key list \<Rightarrow> key list" where
  "garbage live ks = filter (\<lambda>k. k \<notin> live) ks"

definition swept :: "key list \<Rightarrow> sweep_state \<Rightarrow> sweep_state" where
  "swept pre st =
     st\<lparr>keychan := drop (length pre) (keychan st),
        store := (store st)\<lparr>blocks :=
          filter (\<lambda>kb. fst kb \<in> gcs st \<or> fst kb \<notin> set pre) (blocks (store st))\<rparr>,
        output_chan := output_chan st @ garbage (gcs st) pre,
        history := history st @ concat (map (\<lambda>k. [Deleted k, Sent k]) (garbage (gcs st) pre))\<rparr>"

lemma swept_Nil: "swept [] st = st"
  by (simp add: swept_def garbage_def)

lemma keep_live:
  "k \<in> live \<Longrightarrow>
   filter (\<lambda>kb. fst kb \<in> live \<or> fst kb \<noteq> k \<and> fst kb \<notin> A) xs =
   filter (\<lambda>kb. fst kb \<in> live \<or> fst kb \<notin> A) xs"
  by (rule filter_cong) auto

lemma drop_garbage:
  "k \<notin> live \<Longrightarrow>
   filter (\<lambda>kb. fst kb \<noteq> k \<and> (fst kb \<in> live \<or> fst kb \<notin> A)) xs =
   filter (\<lambda>kb. fst kb \<in> live \<or> fst kb \<noteq> k \<and> fst kb \<notin> A) xs"
  by (rule filter_cong) auto

lemma swept_live:
  "keychan st = k # ks \<Longrightarrow> k \<in> gcs st \<Longrightarrow>
   swept (k # pre) st = swept pre (st\<lparr>keychan := ks\<rparr>)"
  by (simp add: swept_def garbage_def keep_live)

lemma swept_garbage:
  "keychan st = k # ks \<Longrightarrow> k \<notin> gcs st \<Longrightarrow>
   swept (k # pre) st =
     swept pre
       (st\<lparr>keychan := ks,
           store := (store st)\<lparr>blocks := filter (\<lambda>kb. fst kb \<noteq> k) (blocks (store st))\<rparr>,
           output_chan := output_chan st @ [k],
           history := history st @ [Deleted k, Sent k]\<rparr>)"
  by (simp add: swept_def garbage_def drop_garbage)

lemma sweep_cases [case_names Done Exhausted Live Failed DoneSend Sent]:
  assumes "\<And>ctx st. ctx_done ctx \<Longrightarrow> P ctx st"
    and "\<And>ctx st. \<not> ctx_done ctx \<Longrightarrow> keychan st = [] \<Longrightarrow> P ctx st"
    and "\<And>ctx st k ks. \<not> ctx_done ctx \<Longrightarrow> keychan st = k # ks \<Longrightarrow> k \<in> gcs st \<Longrightarrow>
           P (tl ctx) (st\<lparr>keychan := ks\<rparr>) \<Longrightarrow> P ctx st"
    and "\<And>ctx st k ks err bs'. \<not> ctx_done ctx \<Longrightarrow> keychan st = k # ks \<Longrightarrow> k \<notin> gcs st \<Longrightarrow>
           DeleteBlock (store st) k = (Some err, bs') \<Longrightarrow> P ctx st"
    and "\<And>ctx st k ks bs'. \<not> ctx_done ctx \<Longrightarrow> keychan st = k # ks \<Longrightarrow> k \<notin> gcs st \<Longrightarrow>
           DeleteBlock (store st) k = (None, bs') \<Longrightarrow> ctx_done (tl ctx) \<Longrightarrow> P ctx st"
    and "\<And>ctx st k ks bs'. \<not> ctx_done ctx \<Longrightarrow> keychan st = k # ks \<Longrightarrow> k \<notin> gcs st \<Longrightarrow>
           DeleteBlock (store st) k = (None, bs') \<Longrightarrow> \<not> ctx_done (tl ctx) \<Longrightarrow>
           P (tl (tl ctx))
             (st\<lparr>keychan := ks, store := bs', output_chan := output_chan st @ [k],
                 history := history st @ [Deleted k, Sent k]\<rparr>) \<Longrightarrow>
           P ctx st"
  shows "P ctx st"
proof (induction "keychan st" arbitrary: ctx st)
  case Nil
  then show ?case using assms(1,2) by (cases "ctx_done ctx") auto
next
  case (Cons k ks)
  note kc = Cons.hyps(2)[symmetric]
  show ?case
  proof (cases "ctx_done ctx")
    case True
    then show ?thesis by (rule assms(1))
  next
    case nd: False
    show ?thesis
    proof (cases "k \<in> gcs st")
      case True
      have "P (tl ctx) (st\<lparr>keychan := ks\<rparr>)" by (rule Cons.hyps(1)) simp
      with nd kc True show ?thesis by (rule assms(3))
    next
      case False
      obtain e bs' where d: "DeleteBlock (store st) k = (e, bs')"
        by (cases "DeleteBlock (store st) k")
      show ?thesis
      proof (cases e)
        case (Some err)
        with nd kc False d show ?thesis using assms(4) by simp
      next
        case None
        note d = d[unfolded None]
        show ?thesis
        proof (cases "ctx_done (tl ctx)")
          case True
          with nd kc False d show ?thesis by (rule assms(5))
        next
          case False2: False
          have "P (tl (tl ctx))
             (st\<lparr>keychan := ks, store := bs', output_chan := output_chan st @ [k],
                 history := history st @ [Deleted k, Sent k]\<rparr>)"
            by (rule Cons.hyps(1)) simp
          with nd kc False d False2 show ?thesis by (rule assms(6))
        qed
      qed
    qed
  qed
qed

lemma swept_sent:
  "keychan st = k # ks \<Longrightarrow> k \<notin> gcs st \<Longrightarrow> DeleteBlock (store st) k = (None, bs') \<Longrightarrow>
   swept (k # pre) st =
     swept pre
       (st\<lparr>keychan := ks, store := bs', output_chan := output_chan st @ [k],
           history := history st @ [Deleted k, Sent k]\<rparr>)"
  using swept_garbage[of st k ks pre] DeleteBlock_ok[of "store st" k bs'] by simp

lemma sweep_exhausted_swept:
  "sweep ctx st = (KeysExhausted, st') \<Longrightarrow> st' = swept (keychan st) st"
proof (induction ctx st rule: sweep_cases)
  case (Done ctx st)
  then show ?case by (simp add: sweep_done)
next
  case (Exhausted ctx st)
  then show ?case by (simp add: sweep_exhausted swept_Nil)
next
  case (Live ctx st k ks)
  then show ?case by (simp add: sweep_live swept_live)
next
  case (Failed ctx st k ks err bs')
  then show ?case by (simp add: sweep_delete_failed)
next
  case (DoneSend ctx st k ks bs')
  then show ?case by (simp add: sweep_done_at_send)
next
  case (Sent ctx st k ks bs')
  then show ?case by (simp add: sweep_sent swept_sent)
qed






section \<open>The collector as a whole\<close>

text \<open>The state in which \<open>GC\<close> starts the goroutine (lines 43 and 44).\<close>

definition sweep_start :: "blockstore \<Rightarrow> key set \<Rightarrow> key list \<Rightarrow> sweep_state" where
  "sweep_start bs1 live keys =
     \<lparr>store = bs1, gcs = live, keychan = keys, output_chan = [],
      closed = False, debug_log = [], history = []\<rparr>"

lemma GC_started:
  assumes "GC ctx bs pn roots = Some (Inr (ex, st'))"
  shows "\<exists>live st1. \<not> gclocked bs
     \<and> ColoredSet pn (bs\<lparr>gclocked := True\<rparr>) roots = Inr live
     \<and> sweep ctx (sweep_start (bs\<lparr>gclocked := True\<rparr>) live (map fst (blocks bs))) = (ex, st1)
     \<and> st' = st1\<lparr>store := Unlock (store st1), closed := True\<rparr>"
  using assms
  by (auto simp: GC_def GCLock_def AllKeysChan_def sweep_start_def Let_def
      split: if_splits sum.splits option.splits prod.splits)

lemma stored_after_sweep:
  "fst ` {kb \<in> set xs. fst kb \<in> live \<or> fst kb \<notin> A} = fst ` set xs - (A - live)"
  by force

lemma set_garbage: "set (garbage live ks) = set ks - live"
  by (auto simp: garbage_def)

lemma distinct_garbage: "distinct ks \<Longrightarrow> distinct (garbage live ks)"
  by (simp add: garbage_def)

lemma swept_fields:
  "keychan (swept pre st) = drop (length pre) (keychan st)"
  "gcs (swept pre st) = gcs st"
  "closed (swept pre st) = closed st"
  "debug_log (swept pre st) = debug_log st"
  "output_chan (swept pre st) = output_chan st @ garbage (gcs st) pre"
  "history (swept pre st) =
     history st @ concat (map (\<lambda>k. [Deleted k, Sent k]) (garbage (gcs st) pre))"
  "blocks (store (swept pre st)) =
     filter (\<lambda>kb. fst kb \<in> gcs st \<or> fst kb \<notin> set pre) (blocks (store st))"
  "gclocked (store (swept pre st)) = gclocked (store st)"
  "delete_fault (store (swept pre st)) = delete_fault (store st)"
  "stored (store (swept pre st)) = stored (store st) - (set pre - gcs st)"
  by (simp_all add: swept_def stored_def stored_after_sweep)

text \<open>
  Claim C3 (sweep correctness). A sweep that runs to the end of the key enumeration
  (it took no \<open>ctx.Done()\<close> case and no deletion failed), over the distinct keys of the
  store, sends exactly the stored keys outside the live set, each once and in enumeration
  order; the store is left with exactly the blocks whose keys are in the live set; and
  in the history every send comes right after the deletion of the same key. With stored
  keys A, B, C, D and live set A, B: C and D are deleted and sent, A and B remain.
\<close>

theorem sweep_completed:
  assumes "sweep ctx st = (KeysExhausted, st')"
    and "keychan st = map fst (blocks (store st))"
    and "distinct (keychan st)"
  shows "output_chan st' = output_chan st @ garbage (gcs st) (keychan st)
    \<and> distinct (garbage (gcs st) (keychan st))
    \<and> set (garbage (gcs st) (keychan st)) = stored (store st) - gcs st
    \<and> stored (store st') = stored (store st) \<inter> gcs st
    \<and> blocks (store st') = filter (\<lambda>kb. fst kb \<in> gcs st) (blocks (store st))
    \<and> history st' =
        history st @ concat (map (\<lambda>k. [Deleted k, Sent k]) (garbage (gcs st) (keychan st)))"
proof -
  have st': "st' = swept (keychan st) st"
    using assms(1) by (rule sweep_exhausted_swept)
  have keys: "set (keychan st) = stored (store st)"
    using assms(2) by (simp add: stored_def)
  have "filter (\<lambda>kb. fst kb \<in> gcs st \<or> fst kb \<notin> set (keychan st)) (blocks (store st))
      = filter (\<lambda>kb. fst kb \<in> gcs st) (blocks (store st))"
    by (rule filter_cong) (auto simp: keys stored_def)
  then have b: "blocks (store st') = filter (\<lambda>kb. fst kb \<in> gcs st) (blocks (store st))"
    by (simp add: st' swept_fields)
  have s: "stored (store st') = stored (store st) \<inter> gcs st"
    by (auto simp: st' swept_fields keys)
  show ?thesis
    using b s assms(3) by (simp add: st' swept_fields set_garbage distinct_garbage keys)
qed

theorem sweep_completed_witness:
  "sweep [] (sweep_start store_AB {''A'', ''B''} [''A'', ''B'', ''C'', ''D''])
     = (KeysExhausted,
        \<lparr>store = store_AB\<lparr>blocks := [(''A'', ProtoBlock (Node [Cid ''B''])),
                                     (''B'', ProtoBlock (Node [Cid ''A'']))]\<rparr>,
         gcs = {''A'', ''B''}, keychan = [], output_chan = [''C'', ''D''],
         closed = False, debug_log = [],
         history = [Deleted ''C'', Sent ''C'', Deleted ''D'', Sent ''D'']\<rparr>)
   \<and> set [''C'', ''D''] = stored store_AB - {''A'', ''B''}
   \<and> stored (store_AB\<lparr>blocks := [(''A'', ProtoBlock (Node [Cid ''B''])),
                                   (''B'', ProtoBlock (Node [Cid ''A'']))]\<rparr>)
       = stored store_AB \<inter> {''A'', ''B''}"
proof -
  let ?st = "sweep_start store_AB {''A'', ''B''} [''A'', ''B'', ''C'', ''D'']"
  let ?st' = "\<lparr>store = store_AB\<lparr>blocks := [(''A'', ProtoBlock (Node [Cid ''B''])),
                                     (''B'', ProtoBlock (Node [Cid ''A'']))]\<rparr>,
         gcs = {''A'', ''B''}, keychan = [], output_chan = [''C'', ''D''],
         closed = False, debug_log = [],
         history = [Deleted ''C'', Sent ''C'', Deleted ''D'', Sent ''D'']\<rparr>"
  have run: "sweep [] ?st = (KeysExhausted, ?st')"
    by (simp add: eval_defs sweep_start_def)
  have keys: "keychan ?st = map fst (blocks (store ?st))"
    by (simp add: sweep_start_def store_AB_def)
  have d: "distinct (keychan ?st)"
    by (simp add: sweep_start_def)
  have g: "garbage (gcs ?st) (keychan ?st) = [''C'', ''D'']"
    by (simp add: garbage_def sweep_start_def)
  have "set (garbage (gcs ?st) (keychan ?st)) = stored (store ?st) - gcs ?st"
    and "stored (store ?st') = stored (store ?st) \<inter> gcs ?st"
    using sweep_completed[OF run keys d] by blast+
  then have "set [''C'', ''D''] = stored store_AB - {''A'', ''B''}"
    and "stored (store ?st') = stored store_AB \<inter> {''A'', ''B''}"
    unfolding g by (simp_all add: sweep_start_def)
  with run show ?thesis by simp
qed






lemma sweep_start_fields:
  "store (sweep_start bs1 live keys) = bs1"
  "gcs (sweep_start bs1 live keys) = live"
  "keychan (sweep_start bs1 live keys) = keys"
  "output_chan (sweep_start bs1 live keys) = []"
  "closed (sweep_start bs1 live keys) = False"
  "debug_log (sweep_start bs1 live keys) = []"
  "history (sweep_start bs1 live keys) = []"
  by (simp_all add: sweep_start_def)







section \<open>Growth of the live set and failure of the walk\<close>

lemma sweep_gcs: "gcs (snd (sweep ctx st)) = gcs st"
proof (induction ctx st rule: sweep_cases)
  case (Done ctx st)
  then show ?case by (simp add: sweep_done)
next
  case (Exhausted ctx st)
  then show ?case by (simp add: sweep_exhausted)
next
  case (Live ctx st k ks)
  then show ?case by (simp add: sweep_live)
next
  case (Failed ctx st k ks err bs')
  then show ?case by (simp add: sweep_delete_failed)
next
  case (DoneSend ctx st k ks bs')
  then show ?case by (simp add: sweep_done_at_send)
next
  case (Sent ctx st k ks bs')
  then show ?case by (simp add: sweep_sent)
qed

lemma ColoredSet_steps:
  assumes "ColoredSet pn ds roots = Inr live"
  shows "\<exists>s1 s2.
     Descendants ds {} (RecursiveKeys pn) False = (None, s1)
     \<and> Descendants ds s1 roots True = (None, s2)
     \<and> Descendants ds (add_direct (DirectKeys pn) s2) (InternalPins pn) False = (None, live)"
  using assms
  by (auto simp: ColoredSet_def Let_def split: prod.splits option.splits)

text \<open>
  Claim C9 (the live set only grows while marking and is read-only while sweeping).
  The visitor, \<open>EnumerateChildren\<close>, \<open>Descendants\<close> and the loop over the direct pins each
  return a set that contains the set they were given; so the sets \<open>ColoredSet\<close> goes
  through form a chain up to its result. The sweep leaves the set as it found it: the
  set at the end of a pass is the one \<open>ColoredSet\<close> returned.
\<close>

theorem live_set_grows_then_frozen:
  "s \<subseteq> snd (visit c s)
   \<and> s \<subseteq> snd (EnumerateChildren ds nd b s)
   \<and> s \<subseteq> snd (Descendants ds s cs b)
   \<and> s \<subseteq> add_direct ks s
   \<and> (\<forall>live. ColoredSet pn ds roots = Inr live \<longrightarrow>
        (\<exists>s1 s2. Descendants ds {} (RecursiveKeys pn) False = (None, s1)
           \<and> Descendants ds s1 roots True = (None, s2)
           \<and> Descendants ds (add_direct (DirectKeys pn) s2) (InternalPins pn) False = (None, live)
           \<and> s1 \<subseteq> s2 \<and> s2 \<subseteq> add_direct (DirectKeys pn) s2
           \<and> add_direct (DirectKeys pn) s2 \<subseteq> live))
   \<and> gcs (snd (sweep ctx st)) = gcs st
   \<and> (\<forall>ex st'. GC ctx bs pn roots = Some (Inr (ex, st')) \<longrightarrow>
        ColoredSet pn (bs\<lparr>gclocked := True\<rparr>) roots = Inr (gcs st'))"
proof -
  have v: "s \<subseteq> snd (visit c s)"
    by (cases "visit c s") (auto dest: visit_mono)
  have e: "s \<subseteq> snd (EnumerateChildren ds nd b s)"
    by (simp add: EnumerateChildren_def enumerate_links_mono)
  have a: "s \<subseteq> add_direct ks s"
    by (auto simp: add_direct_eq)
  have c: "\<exists>s1 s2. Descendants ds {} (RecursiveKeys pn) False = (None, s1)
           \<and> Descendants ds s1 roots True = (None, s2)
           \<and> Descendants ds (add_direct (DirectKeys pn) s2) (InternalPins pn) False = (None, live)
           \<and> s1 \<subseteq> s2 \<and> s2 \<subseteq> add_direct (DirectKeys pn) s2
           \<and> add_direct (DirectKeys pn) s2 \<subseteq> live"
    if "ColoredSet pn ds roots = Inr live" for live
  proof -
    from ColoredSet_steps[OF that] obtain s1 s2 where
      1: "Descendants ds {} (RecursiveKeys pn) False = (None, s1)"
      and 2: "Descendants ds s1 roots True = (None, s2)"
      and 3: "Descendants ds (add_direct (DirectKeys pn) s2) (InternalPins pn) False = (None, live)"
      by blast
    have "s1 \<subseteq> s2"
      using Descendants_mono[of s1 ds roots True] 2 by simp
    moreover have "s2 \<subseteq> add_direct (DirectKeys pn) s2"
      by (auto simp: add_direct_eq)
    moreover have "add_direct (DirectKeys pn) s2 \<subseteq> live"
      using Descendants_mono[of "add_direct (DirectKeys pn) s2" ds "InternalPins pn" False] 3
      by simp
    ultimately show ?thesis using 1 2 3 by blast
  qed
  have g: "ColoredSet pn (bs\<lparr>gclocked := True\<rparr>) roots = Inr (gcs st')"
    if "GC ctx bs pn roots = Some (Inr (ex, st'))" for ex st'
  proof -
    from GC_started[OF that] obtain live st1 where
      m: "ColoredSet pn (bs\<lparr>gclocked := True\<rparr>) roots = Inr live"
      and run: "sweep ctx (sweep_start (bs\<lparr>gclocked := True\<rparr>) live (map fst (blocks bs))) = (ex, st1)"
      and st': "st' = st1\<lparr>store := Unlock (store st1), closed := True\<rparr>"
      by blast
    have "gcs st1 = live"
      using sweep_gcs[of ctx "sweep_start (bs\<lparr>gclocked := True\<rparr>) live (map fst (blocks bs))"] run
      by (simp add: sweep_start_fields)
    then show ?thesis using m st' by simp
  qed
  show ?thesis
  proof (intro conjI allI impI)
    show "s \<subseteq> snd (visit c s)" by (rule v)
    show "s \<subseteq> snd (EnumerateChildren ds nd b s)" by (rule e)
    show "s \<subseteq> snd (Descendants ds s cs b)" by (rule Descendants_mono)
    show "s \<subseteq> add_direct ks s" by (rule a)
    show "gcs (snd (sweep ctx st)) = gcs st" by (rule sweep_gcs)
  next
    fix live assume "ColoredSet pn ds roots = Inr live"
    then show "\<exists>s1 s2. Descendants ds {} (RecursiveKeys pn) False = (None, s1)
           \<and> Descendants ds s1 roots True = (None, s2)
           \<and> Descendants ds (add_direct (DirectKeys pn) s2) (InternalPins pn) False = (None, live)
           \<and> s1 \<subseteq> s2 \<and> s2 \<subseteq> add_direct (DirectKeys pn) s2
           \<and> add_direct (DirectKeys pn) s2 \<subseteq> live"
      by (rule c)
  next
    fix ex st' assume "GC ctx bs pn roots = Some (Inr (ex, st'))"
    then show "ColoredSet pn (bs\<lparr>gclocked := True\<rparr>) roots = Inr (gcs st')"
      by (rule g)
  qed
qed

theorem live_set_grows_then_frozen_witness:
  "ColoredSet pins_A store_AB [] = Inr {''A'', ''B''}
   \<and> (\<exists>s1 s2. Descendants store_AB {} (RecursiveKeys pins_A) False = (None, s1)
           \<and> Descendants store_AB s1 [] True = (None, s2)
           \<and> Descendants store_AB (add_direct (DirectKeys pins_A) s2) (InternalPins pins_A) False
               = (None, {''A'', ''B''})
           \<and> s1 \<subseteq> s2 \<and> s2 \<subseteq> add_direct (DirectKeys pins_A) s2
           \<and> add_direct (DirectKeys pins_A) s2 \<subseteq> {''A'', ''B''})
   \<and> {''Q''} \<subseteq> snd (Descendants store_AB {''Q''} [Cid ''A''] False)
   \<and> snd (Descendants store_AB {''Q''} [Cid ''A''] False) = {''Q'', ''A'', ''B''}
   \<and> gcs (snd (sweep [] (sweep_start store_AB {''A'', ''B''} [''A'', ''B'', ''C'', ''D''])))
       = {''A'', ''B''}"
proof -
  note w = live_set_grows_then_frozen[of "{''Q''}" "Cid ''A''" store_AB "Node []" False "[Cid ''A'']" "[]"
        pins_A "[]" "[]" "sweep_start store_AB {''A'', ''B''} [''A'', ''B'', ''C'', ''D'']" store_AB]
  have m: "ColoredSet pins_A store_AB [] = Inr {''A'', ''B''}"
    by (simp add: eval_defs insert_commute)
  have "\<forall>live. ColoredSet pins_A store_AB [] = Inr live \<longrightarrow>
        (\<exists>s1 s2. Descendants store_AB {} (RecursiveKeys pins_A) False = (None, s1)
           \<and> Descendants store_AB s1 [] True = (None, s2)
           \<and> Descendants store_AB (add_direct (DirectKeys pins_A) s2) (InternalPins pins_A) False
               = (None, live)
           \<and> s1 \<subseteq> s2 \<and> s2 \<subseteq> add_direct (DirectKeys pins_A) s2
           \<and> add_direct (DirectKeys pins_A) s2 \<subseteq> live)"
    using w by (elim conjE)
  from this[rule_format, OF m]
  have chain: "\<exists>s1 s2. Descendants store_AB {} (RecursiveKeys pins_A) False = (None, s1)
           \<and> Descendants store_AB s1 [] True = (None, s2)
           \<and> Descendants store_AB (add_direct (DirectKeys pins_A) s2) (InternalPins pins_A) False
               = (None, {''A'', ''B''})
           \<and> s1 \<subseteq> s2 \<and> s2 \<subseteq> add_direct (DirectKeys pins_A) s2
           \<and> add_direct (DirectKeys pins_A) s2 \<subseteq> {''A'', ''B''}" .
  have d: "{''Q''} \<subseteq> snd (Descendants store_AB {''Q''} [Cid ''A''] False)"
    using w by (elim conjE)
  have "gcs (snd (sweep [] (sweep_start store_AB {''A'', ''B''} [''A'', ''B'', ''C'', ''D''])))
       = gcs (sweep_start store_AB {''A'', ''B''} [''A'', ''B'', ''C'', ''D''])"
    using w by (elim conjE)
  then have g: "gcs (snd (sweep [] (sweep_start store_AB {''A'', ''B''} [''A'', ''B'', ''C'', ''D''])))
       = {''A'', ''B''}"
    by (simp add: sweep_start_fields)
  have v: "snd (Descendants store_AB {''Q''} [Cid ''A''] False) = {''Q'', ''A'', ''B''}"
    by (auto simp: eval_defs)
  from m chain d v g show ?thesis by (intro conjI)
qed

lemma Descendants_Cons_fetch_fails:
  "Get ds r = Inl err \<Longrightarrow> Descendants ds s (r # rest) b = (Some err, insert (Hash r) s)"
  by simp




end
